theory Spec2Isabelle
  imports Main "HOL-Library.Word"
begin

section \<open>Data model\<close>

text \<open>
  A Python \<open>bytes\<close> object is a list of 8-bit words.  The guards at the top of
  \<open>decode_cobs\<close> and \<open>decode_cobsr\<close> (no \<open>str\<close>, a flat one-byte-wide buffer)
  hold for every value of this type, so they have no branch in the model.
\<close>

type_synonym byte = "8 word"
type_synonym bytes = "byte list"

text \<open>
  The exceptions the codec can raise.  \<open>DecodeError\<close> carries the message the source
  passes to it; \<open>IndexError\<close> is what Python raises when \<open>in_bytes_mv[idx]\<close> reads
  past the end of the buffer.
\<close>

datatype exn = DecodeError string | IndexError

definition ZeroByteInInput :: exn where
  "ZeroByteInInput = DecodeError ''zero byte found in input''"

definition TruncatedLengthCode :: exn where
  "TruncatedLengthCode = DecodeError ''not enough input bytes for length code''"

text \<open>
  Python's slice \<open>xs[i:j]\<close> for indices \<open>0 \<le> i\<close> and \<open>0 \<le> j\<close>: the elements at
  positions \<open>i \<le> p < min j (len xs)\<close>; it never raises.
\<close>

definition slice :: "'a list \<Rightarrow> nat \<Rightarrow> nat \<Rightarrow> 'a list" where
  "slice xs i j = drop i (take j xs)"

section \<open>The byte-stuffing codec\<close>

text \<open>
  One pass through the body of the \<open>while True\<close> loop either raises, leaves the loop
  by \<open>break\<close> (the function then returns \<open>out_bytes\<close>), or goes round again with a new
  cursor and a new output buffer.
\<close>

datatype iter = Raise exn | Break bytes | Continue nat bytes

text \<open>
  The loop body of \<open>decode_cobs\<close> (lines 62 to 78).  \<open>len\<close> is the source's \<open>length\<close>,
  \<open>endi\<close> its \<open>end\<close>.  The length code is at least 1 where \<open>endi\<close> is computed, so the
  subtraction never goes below the cursor.
\<close>

definition cobs_body :: "bytes \<Rightarrow> nat \<Rightarrow> bytes \<Rightarrow> iter" where
  "cobs_body in_bytes idx out_bytes =
     (if length in_bytes \<le> idx then Raise IndexError
      else
        let len = unat (in_bytes ! idx) in
        if len = 0 then Raise ZeroByteInInput
        else
          let idx1 = idx + 1;
              endi = idx1 + len - 1;
              copy_mv = slice in_bytes idx1 endi in
          if 0 \<in> set copy_mv then Raise ZeroByteInInput
          else
            let out1 = out_bytes @ copy_mv in
            if endi > length in_bytes then Raise TruncatedLengthCode
            else if endi < length in_bytes then
              (if len < 255 then Continue endi (out1 @ [0]) else Continue endi out1)
            else Break out1)"

text \<open>
  The loop body of \<open>decode_cobsr\<close> (lines 98 to 115): the same, except that a cursor
  past the end of the buffer appends the length code itself and leaves the loop.
\<close>

definition cobsr_body :: "bytes \<Rightarrow> nat \<Rightarrow> bytes \<Rightarrow> iter" where
  "cobsr_body in_bytes idx out_bytes =
     (if length in_bytes \<le> idx then Raise IndexError
      else
        let len = unat (in_bytes ! idx) in
        if len = 0 then Raise ZeroByteInInput
        else
          let idx1 = idx + 1;
              endi = idx1 + len - 1;
              copy_mv = slice in_bytes idx1 endi in
          if 0 \<in> set copy_mv then Raise ZeroByteInInput
          else
            let out1 = out_bytes @ copy_mv in
            if endi > length in_bytes then Break (out1 @ [of_nat len])
            else if endi < length in_bytes then
              (if len < 255 then Continue endi (out1 @ [0]) else Continue endi out1)
            else Break out1)"

text \<open>The \<open>while True\<close> loops: the cursor grows with every pass, so they end.\<close>

function cobs_loop :: "bytes \<Rightarrow> nat \<Rightarrow> bytes \<Rightarrow> exn + bytes" where
  "cobs_loop in_bytes idx out_bytes =
     (case cobs_body in_bytes idx out_bytes of
        Raise e \<Rightarrow> Inl e
      | Break out' \<Rightarrow> Inr out'
      | Continue i out' \<Rightarrow> cobs_loop in_bytes i out')"
  by pat_completeness auto
termination
  by (relation "measure (\<lambda>(in_bytes, idx, out_bytes). length in_bytes - idx)")
     (auto simp: cobs_body_def Let_def split: if_splits)

function cobsr_loop :: "bytes \<Rightarrow> nat \<Rightarrow> bytes \<Rightarrow> exn + bytes" where
  "cobsr_loop in_bytes idx out_bytes =
     (case cobsr_body in_bytes idx out_bytes of
        Raise e \<Rightarrow> Inl e
      | Break out' \<Rightarrow> Inr out'
      | Continue i out' \<Rightarrow> cobsr_loop in_bytes i out')"
  by pat_completeness auto
termination
  by (relation "measure (\<lambda>(in_bytes, idx, out_bytes). length in_bytes - idx)")
     (auto simp: cobsr_body_def Let_def split: if_splits)

declare cobs_loop.simps [simp del] cobsr_loop.simps [simp del]

text \<open>
  The entry points: \<open>Inr\<close> is the returned byte string (the spec's \<open>Message\<close>),
  \<open>Inl\<close> the exception raised (the spec's \<open>Error\<close>).
\<close>

definition decode_cobs :: "bytes \<Rightarrow> exn + bytes" where
  "decode_cobs in_bytes =
     (if length in_bytes > 0 then cobs_loop in_bytes 0 [] else Inr [])"

definition decode_cobsr :: "bytes \<Rightarrow> exn + bytes" where
  "decode_cobsr in_bytes =
     (if length in_bytes > 0 then cobsr_loop in_bytes 0 [] else Inr [])"

text \<open>
  The states in which the loop of \<open>decode_cobs\<close> (of \<open>decode_cobsr\<close>) stands at line 62
  (line 98) while it decodes \<open>in_bytes\<close>: the cursor \<open>idx\<close> and the output so far.
\<close>

inductive cobs_head :: "bytes \<Rightarrow> nat \<Rightarrow> bytes \<Rightarrow> bool" for in_bytes where
  cobs_head_first: "length in_bytes > 0 \<Longrightarrow> cobs_head in_bytes 0 []"
| cobs_head_next: "cobs_head in_bytes idx out_bytes \<Longrightarrow>
     cobs_body in_bytes idx out_bytes = Continue i out' \<Longrightarrow> cobs_head in_bytes i out'"

inductive cobsr_head :: "bytes \<Rightarrow> nat \<Rightarrow> bytes \<Rightarrow> bool" for in_bytes where
  cobsr_head_first: "length in_bytes > 0 \<Longrightarrow> cobsr_head in_bytes 0 []"
| cobsr_head_next: "cobsr_head in_bytes idx out_bytes \<Longrightarrow>
     cobsr_body in_bytes idx out_bytes = Continue i out' \<Longrightarrow> cobsr_head in_bytes i out'"

code_pred cobs_head .
code_pred cobsr_head .

text \<open>
  What the loop body computes from the length code at cursor \<open>idx\<close>: \<open>chunk_end\<close> is
  the source's \<open>end\<close> (lines 66 and 102) and \<open>chunk\<close> its \<open>copy_mv\<close> (lines 67 and 103).
\<close>

definition chunk_end :: "bytes \<Rightarrow> nat \<Rightarrow> nat" where
  "chunk_end in_bytes idx = idx + 1 + unat (in_bytes ! idx) - 1"

definition chunk :: "bytes \<Rightarrow> nat \<Rightarrow> bytes" where
  "chunk in_bytes idx = slice in_bytes (idx + 1) (chunk_end in_bytes idx)"

subsection \<open>A reference encoder\<close>

text \<open>
  Modelled from the spec: the reference COBS encoder that the round-trip law needs.
  The repository decodes only; this is the encoder of the library its decoders were
  adapted from.  \<open>block\<close> is the run of non-zero bytes read since the last length code
  was written, \<open>final_zero\<close> says whether the payload so far ends a block with a zero
  (or is empty).  A zero byte closes the block with length code \<open>len block + 1\<close>; the
  254th non-zero byte closes it with length code \<open>0xFF\<close>; at the end of the payload the
  last block is written unless the payload ended with a full \<open>0xFF\<close> block.
\<close>

fun cobs_encode_from :: "bytes \<Rightarrow> bytes \<Rightarrow> bool \<Rightarrow> bytes" where
  "cobs_encode_from [] block final_zero =
     (if block \<noteq> [] \<or> final_zero then of_nat (length block + 1) # block else [])"
| "cobs_encode_from (b # rest) block final_zero =
     (if b = 0 then of_nat (length block + 1) # block @ cobs_encode_from rest [] True
      else if length block = 253 then 255 # (block @ [b]) @ cobs_encode_from rest [] False
      else cobs_encode_from rest (block @ [b]) final_zero)"

definition cobs_encode :: "bytes \<Rightarrow> bytes" where
  "cobs_encode payload = cobs_encode_from payload [] True"

section \<open>The frame accumulator\<close>

text \<open>
  An incoming \<open>AnalyzerFrame\<close>: the bytes object under \<open>frame.data["data"]\<close> and the
  two timestamps.  Timestamps are opaque, so their type is a parameter.
\<close>

record 't frame =
  data :: bytes
  start_time :: 't
  end_time :: 't

text \<open>
  The \<open>AnalyzerFrame\<close> that \<open>decode\<close> returns: \<open>Message\<close> with the decoded bytes or
  \<open>Error\<close> with \<open>str(de)\<close>, each with the values of \<open>self.frame_start_time\<close> and
  \<open>self.frame_end_time\<close> (attributes that can hold \<open>None\<close>).
\<close>

datatype 't result_frame =
    Message (frame_start: "'t option") (frame_end: "'t option") bytes
  | Error (frame_start: "'t option") (frame_end: "'t option") string

text \<open>The attributes of a \<open>CobsXDecoder\<close> object, and \<open>__init__\<close>.\<close>

record 't decoder =
  received :: "bytes list"
  frame_start_time :: "'t option"
  frame_end_time :: "'t option"

definition init :: "'t decoder" where
  "init = \<lparr>received = [], frame_start_time = None, frame_end_time = None\<rparr>"

text \<open>The two subclasses differ in \<open>decode_bytes\<close> only.\<close>

datatype variant = CobsDecoder | CobsrDecoder

fun decode_bytes :: "variant \<Rightarrow> bytes \<Rightarrow> exn + bytes" where
  "decode_bytes CobsDecoder x = decode_cobs x"
| "decode_bytes CobsrDecoder x = decode_cobsr x"

text \<open>
  Lines 150 and 151: \<open>del self.received[:k]\<close>, guarded by \<open>len(self.received) >= k\<close>.
  \<open>k\<close> is the setting \<open>number_of_prefix_bytes_after_0_byte\<close>, an integer from 0 to 10
  that the host supplies; \<open>int(k)\<close> is then \<open>k\<close>.
\<close>

definition strip_prefix :: "nat \<Rightarrow> bytes list \<Rightarrow> bytes list" where
  "strip_prefix k rcvd = (if length rcvd \<ge> k then drop k rcvd else rcvd)"

text \<open>
  \<open>CobsXDecoder.decode\<close> (lines 142 to 177), as a function from the object's state and
  the incoming frame to the new state and the returned value (\<open>None\<close> or a frame).
  \<open>except DecodeError\<close> catches that exception only, so any other one leaves \<open>decode\<close>.
\<close>

definition decode ::
  "variant \<Rightarrow> nat \<Rightarrow> 't decoder \<Rightarrow> 't frame \<Rightarrow> exn + ('t decoder \<times> 't result_frame option)" where
  "decode v k self frame =
     (let self1 = (if frame_start_time self = None
                   then self\<lparr>frame_start_time := Some (start_time frame)\<rparr> else self)
      in
      if data frame = [0] then
        let self2 = self1\<lparr>received := strip_prefix k (received self1)\<rparr>;
            self3 = self2\<lparr>received := [], frame_start_time := Some (start_time frame)\<rparr>
        in
        if received self2 \<noteq> [] then
          (case decode_bytes v (concat (received self2)) of
             Inr decoded \<Rightarrow>
               Inr (self3, Some (Message (frame_start_time self2) (frame_end_time self2) decoded))
           | Inl (DecodeError de) \<Rightarrow>
               Inr (self3, Some (Error (frame_start_time self2) (frame_end_time self2) de))
           | Inl IndexError \<Rightarrow> Inl IndexError)
        else Inr (self3, None)
      else
        Inr (self1\<lparr>received := received self1 @ [data frame],
                   frame_end_time := Some (end_time frame)\<rparr>, None))"

text \<open>
  The host calls \<open>decode\<close> once for every frame of the stream, in order, and collects
  the frames it returns.
\<close>

fun feed ::
  "variant \<Rightarrow> nat \<Rightarrow> 't decoder \<Rightarrow> 't frame list \<Rightarrow> exn + ('t decoder \<times> 't result_frame list)" where
  "feed v k self [] = Inr (self, [])"
| "feed v k self (frame # frames) =
     (case decode v k self frame of
        Inl e \<Rightarrow> Inl e
      | Inr (self', retval) \<Rightarrow>
          (case feed v k self' frames of
             Inl e \<Rightarrow> Inl e
           | Inr (self'', retvals) \<Rightarrow>
               Inr (self'', (case retval of None \<Rightarrow> [] | Some r \<Rightarrow> [r]) @ retvals)))"

section \<open>Properties of the codec\<close>

subsection \<open>The loops and their states\<close>

lemma cobs_body_Continue_less:
  "cobs_body in_bytes idx out_bytes = Continue i out' \<Longrightarrow> idx < i \<and> i < length in_bytes"
  by (auto simp: cobs_body_def Let_def split: if_splits)

lemma cobsr_body_Continue_less:
  "cobsr_body in_bytes idx out_bytes = Continue i out' \<Longrightarrow> idx < i \<and> i < length in_bytes"
  by (auto simp: cobsr_body_def Let_def split: if_splits)

lemma exn_distinct:
  "ZeroByteInInput \<noteq> TruncatedLengthCode" "ZeroByteInInput \<noteq> IndexError"
  "TruncatedLengthCode \<noteq> IndexError"
  by (simp_all add: ZeroByteInInput_def TruncatedLengthCode_def)

text \<open>Every state the loop stands in yields the result of the whole call.\<close>

lemma cobs_head_loop:
  "cobs_head in_bytes idx out_bytes \<Longrightarrow>
     idx < length in_bytes \<and> cobs_loop in_bytes idx out_bytes = decode_cobs in_bytes"
proof (induction rule: cobs_head.induct)
  case cobs_head_first
  then show ?case by (simp add: decode_cobs_def)
next
  case (cobs_head_next idx out_bytes i out')
  then show ?case
    using cobs_body_Continue_less [of in_bytes idx out_bytes i out']
    by (simp add: cobs_loop.simps [of in_bytes idx out_bytes])
qed

lemma cobsr_head_loop:
  "cobsr_head in_bytes idx out_bytes \<Longrightarrow>
     idx < length in_bytes \<and> cobsr_loop in_bytes idx out_bytes = decode_cobsr in_bytes"
proof (induction rule: cobsr_head.induct)
  case cobsr_head_first
  then show ?case by (simp add: decode_cobsr_def)
next
  case (cobsr_head_next idx out_bytes i out')
  then show ?case
    using cobsr_body_Continue_less [of in_bytes idx out_bytes i out']
    by (simp add: cobsr_loop.simps [of in_bytes idx out_bytes])
qed

text \<open>The loop body, case by case, in terms of \<open>chunk\<close> and \<open>chunk_end\<close>.\<close>

lemma cobs_body_cases:
  assumes "idx < length in_bytes"
  shows "cobs_body in_bytes idx out_bytes =
     (if in_bytes ! idx = 0 \<or> 0 \<in> set (chunk in_bytes idx) then Raise ZeroByteInInput
      else if chunk_end in_bytes idx > length in_bytes then Raise TruncatedLengthCode
      else if chunk_end in_bytes idx < length in_bytes then
        Continue (chunk_end in_bytes idx)
          (out_bytes @ chunk in_bytes idx @ (if unat (in_bytes ! idx) < 255 then [0] else []))
      else Break (out_bytes @ chunk in_bytes idx))"
  using assms
  by (simp add: cobs_body_def chunk_def chunk_end_def Let_def unat_eq_0)

lemma cobsr_body_cases:
  assumes "idx < length in_bytes"
  shows "cobsr_body in_bytes idx out_bytes =
     (if in_bytes ! idx = 0 \<or> 0 \<in> set (chunk in_bytes idx) then Raise ZeroByteInInput
      else if chunk_end in_bytes idx > length in_bytes then
        Break (out_bytes @ chunk in_bytes idx @ [in_bytes ! idx])
      else if chunk_end in_bytes idx < length in_bytes then
        Continue (chunk_end in_bytes idx)
          (out_bytes @ chunk in_bytes idx @ (if unat (in_bytes ! idx) < 255 then [0] else []))
      else Break (out_bytes @ chunk in_bytes idx))"
  using assms
  by (simp add: cobsr_body_def chunk_def chunk_end_def Let_def unat_eq_0)

lemma body_Continue_iff:
  "cobsr_body in_bytes idx out_bytes = Continue i out' \<longleftrightarrow>
   cobs_body in_bytes idx out_bytes = Continue i out'"
  by (auto simp: cobs_body_def cobsr_body_def Let_def)

lemma body_Break:
  "cobs_body in_bytes idx out_bytes = Break out' \<Longrightarrow>
   cobsr_body in_bytes idx out_bytes = Break out'"
  by (auto simp: cobs_body_def cobsr_body_def Let_def split: if_splits)

lemma cobs_loop_Inr_cobsr:
  "cobs_loop in_bytes idx out_bytes = Inr m \<Longrightarrow> cobsr_loop in_bytes idx out_bytes = Inr m"
proof (induction in_bytes idx out_bytes rule: cobs_loop.induct)
  case (1 in_bytes idx out_bytes)
  show ?case
  proof (cases "cobs_body in_bytes idx out_bytes")
    case (Raise e)
    with "1.prems" show ?thesis by (simp add: cobs_loop.simps [of in_bytes idx out_bytes])
  next
    case (Break out')
    with "1.prems" body_Break [OF Break] show ?thesis
      by (simp add: cobs_loop.simps [of in_bytes idx out_bytes]
          cobsr_loop.simps [of in_bytes idx out_bytes])
  next
    case (Continue i out')
    then have "cobsr_body in_bytes idx out_bytes = Continue i out'"
      by (simp add: body_Continue_iff)
    with "1.prems" "1.IH" [OF Continue] Continue show ?thesis
      by (simp add: cobs_loop.simps [of in_bytes idx out_bytes]
          cobsr_loop.simps [of in_bytes idx out_bytes])
  qed
qed

text \<open>The read at line 62 (line 98) is always inside the buffer.\<close>

lemma cobs_loop_no_IndexError:
  "idx < length in_bytes \<Longrightarrow> cobs_loop in_bytes idx out_bytes \<noteq> Inl IndexError"
proof (induction in_bytes idx out_bytes rule: cobs_loop.induct)
  case (1 in_bytes idx out_bytes)
  show ?case
  proof (cases "cobs_body in_bytes idx out_bytes")
    case (Raise e)
    with "1.prems" have "e \<noteq> IndexError"
      by (auto simp: cobs_body_cases exn_distinct split: if_splits)
    with Raise show ?thesis by (simp add: cobs_loop.simps [of in_bytes idx out_bytes])
  next
    case (Break out')
    then show ?thesis by (simp add: cobs_loop.simps [of in_bytes idx out_bytes])
  next
    case (Continue i out')
    with "1.IH" [OF Continue] cobs_body_Continue_less [OF Continue] show ?thesis
      by (simp add: cobs_loop.simps [of in_bytes idx out_bytes])
  qed
qed

lemma cobsr_loop_Inl:
  "idx < length in_bytes \<Longrightarrow> cobsr_loop in_bytes idx out_bytes = Inl e \<Longrightarrow>
     e = ZeroByteInInput"
proof (induction in_bytes idx out_bytes rule: cobsr_loop.induct)
  case (1 in_bytes idx out_bytes)
  show ?case
  proof (cases "cobsr_body in_bytes idx out_bytes")
    case (Raise e')
    with "1.prems" have "e' = ZeroByteInInput"
      by (auto simp: cobsr_body_cases split: if_splits)
    with Raise "1.prems" show ?thesis
      by (simp add: cobsr_loop.simps [of in_bytes idx out_bytes])
  next
    case (Break out')
    with "1.prems" show ?thesis by (simp add: cobsr_loop.simps [of in_bytes idx out_bytes])
  next
    case (Continue i out')
    with "1.IH" [OF Continue] cobsr_body_Continue_less [OF Continue] "1.prems" show ?thesis
      by (simp add: cobsr_loop.simps [of in_bytes idx out_bytes])
  qed
qed

lemma decode_cobs_no_IndexError: "decode_cobs in_bytes \<noteq> Inl IndexError"
  using cobs_loop_no_IndexError [of 0 in_bytes "[]"] by (simp add: decode_cobs_def)

lemma decode_cobsr_Inl: "decode_cobsr in_bytes = Inl e \<Longrightarrow> e = ZeroByteInInput"
  using cobsr_loop_Inl [of 0 in_bytes "[]" e] by (simp add: decode_cobsr_def split: if_splits)

text \<open>A truncation error of \<open>decode_cobs\<close> comes from a state the loop stood in.\<close>

lemma cobs_loop_truncated:
  "cobs_head in_bytes idx out_bytes \<Longrightarrow>
   cobs_loop in_bytes idx out_bytes = Inl TruncatedLengthCode \<Longrightarrow>
   \<exists>i out'. cobs_head in_bytes i out' \<and> in_bytes ! i \<noteq> 0 \<and>
      0 \<notin> set (chunk in_bytes i) \<and> chunk_end in_bytes i > length in_bytes"
proof (induction in_bytes idx out_bytes rule: cobs_loop.induct)
  case (1 in_bytes idx out_bytes)
  from "1.prems"(1) have less: "idx < length in_bytes"
    by (simp add: cobs_head_loop)
  show ?case
  proof (cases "cobs_body in_bytes idx out_bytes")
    case (Raise e)
    with "1.prems"(2) have "cobs_body in_bytes idx out_bytes = Raise TruncatedLengthCode"
      by (simp add: cobs_loop.simps [of in_bytes idx out_bytes])
    with less have "in_bytes ! idx \<noteq> 0 \<and> 0 \<notin> set (chunk in_bytes idx) \<and>
        chunk_end in_bytes idx > length in_bytes"
      by (auto simp: cobs_body_cases exn_distinct split: if_splits)
    with "1.prems"(1) show ?thesis by blast
  next
    case (Break out')
    with "1.prems"(2) show ?thesis by (simp add: cobs_loop.simps [of in_bytes idx out_bytes])
  next
    case (Continue i out')
    from "1.prems"(1) Continue have "cobs_head in_bytes i out'"
      by (rule cobs_head_next)
    moreover from "1.prems"(2) Continue have "cobs_loop in_bytes i out' = Inl TruncatedLengthCode"
      by (simp add: cobs_loop.simps [of in_bytes idx out_bytes])
    ultimately show ?thesis by (rule "1.IH" [OF Continue])
  qed
qed

subsection \<open>Decoding what the reference encoder writes\<close>

lemma cobs_body_shift:
  "cobs_body (pre @ in_bytes) (length pre + idx) out_bytes =
     (case cobs_body in_bytes idx out_bytes of
        Raise e \<Rightarrow> Raise e | Break out' \<Rightarrow> Break out'
      | Continue i out' \<Rightarrow> Continue (length pre + i) out')"
  by (simp add: cobs_body_def Let_def slice_def nth_append drop_take
      split: if_splits)

lemma cobs_loop_shift:
  "cobs_loop (pre @ in_bytes) (length pre + idx) out_bytes = cobs_loop in_bytes idx out_bytes"
proof (induction in_bytes idx out_bytes rule: cobs_loop.induct)
  case (1 in_bytes idx out_bytes)
  show ?case
  proof (cases "cobs_body in_bytes idx out_bytes")
    case (Continue i out')
    with "1.IH" [OF Continue] show ?thesis
      by (simp add: cobs_loop.simps [of in_bytes idx out_bytes]
          cobs_loop.simps [of "pre @ in_bytes" "length pre + idx" out_bytes] cobs_body_shift)
  qed (simp_all add: cobs_loop.simps [of in_bytes idx out_bytes]
          cobs_loop.simps [of "pre @ in_bytes" "length pre + idx" out_bytes] cobs_body_shift)
qed

lemma unat_length_code: "n \<le> 254 \<Longrightarrow> unat (of_nat (n + 1) :: byte) = n + 1"
  unfolding unat_of_nat by simp

lemma cobs_body_chunk:
  assumes "0 \<notin> set block" and "unat c = length block + 1"
  shows "cobs_body (c # block @ rest) 0 out_bytes =
     (if rest = [] then Break (out_bytes @ block)
      else Continue (length block + 1)
             (out_bytes @ block @ (if length block < 254 then [0] else [])))"
  using assms by (auto simp: cobs_body_def Let_def slice_def)

lemma cobs_loop_chunk:
  assumes "0 \<notin> set block" and "unat c = length block + 1"
  shows "cobs_loop (c # block @ rest) 0 out_bytes =
     (if rest = [] then Inr (out_bytes @ block)
      else cobs_loop rest 0 (out_bytes @ block @ (if length block < 254 then [0] else [])))"
proof -
  have "cobs_loop ((c # block) @ rest) (length (c # block) + 0) out' = cobs_loop rest 0 out'"
    for out'
    by (rule cobs_loop_shift)
  then show ?thesis
    using cobs_body_chunk [OF assms, of rest out_bytes]
    by (simp add: cobs_loop.simps [of "c # block @ rest" 0 out_bytes])
qed

lemma cobs_encode_from_Nil:
  "cobs_encode_from payload block final_zero = [] \<longleftrightarrow>
     payload = [] \<and> block = [] \<and> \<not> final_zero"
  by (induction payload arbitrary: block final_zero) auto

lemma cobs_loop_encode_from:
  "0 \<notin> set block \<Longrightarrow> length block \<le> 253 \<Longrightarrow>
   cobs_encode_from payload block final_zero \<noteq> [] \<Longrightarrow>
   cobs_loop (cobs_encode_from payload block final_zero) 0 out_bytes =
     Inr (out_bytes @ block @ payload)"
proof (induction payload arbitrary: block final_zero out_bytes)
  case Nil
  then have "unat (of_nat (length block + 1) :: byte) = length block + 1"
    by (intro unat_length_code) simp
  with Nil show ?case
    using cobs_loop_chunk [of block "of_nat (length block + 1)" "[]" out_bytes]
    by (auto simp del: of_nat_add of_nat_Suc split: if_splits)
next
  case (Cons b rest)
  from Cons.prems have code: "unat (of_nat (length block + 1) :: byte) = length block + 1"
    by (intro unat_length_code) simp
  show ?case
  proof (cases "b = 0")
    case True
    have ne: "cobs_encode_from rest [] True \<noteq> []"
      by (simp add: cobs_encode_from_Nil)
    from Cons.prems True ne show ?thesis
      using cobs_loop_chunk [OF Cons.prems(1) code, of "cobs_encode_from rest [] True" out_bytes]
        Cons.IH [of "[]" True "out_bytes @ block @ [0]"]
      by (simp del: of_nat_add of_nat_Suc)
  next
    case False
    show ?thesis
    proof (cases "length block = 253")
      case True
      have blk: "0 \<notin> set (block @ [b])" "unat (255 :: byte) = length (block @ [b]) + 1"
        using Cons.prems False True by auto
      show ?thesis
      proof (cases "cobs_encode_from rest [] False = []")
        case emp: True
        then have "rest = []" by (simp add: cobs_encode_from_Nil)
        with emp False True show ?thesis
          using cobs_loop_chunk [OF blk, of "[]" out_bytes] by simp
      next
        case nonemp: False
        with False True show ?thesis
          using cobs_loop_chunk [OF blk, of "cobs_encode_from rest [] False" out_bytes]
            Cons.IH [of "[]" False "out_bytes @ block @ [b]"]
          by simp
      qed
    next
      case neq: False
      with False Cons.prems show ?thesis
        using Cons.IH [of "block @ [b]" final_zero out_bytes] by simp
    qed
  qed
qed

section \<open>The claims about the codec\<close>

text \<open>
  C1.  For every payload, of any length, \<open>decode_cobs\<close> applied to the COBS stuffing
  that the reference encoder writes for it returns the payload exactly, as a message.
\<close>

theorem decode_cobs_roundtrip: "decode_cobs (cobs_encode payload) = Inr payload"
  using cobs_loop_encode_from [of "[]" payload True "[]"]
  by (simp add: decode_cobs_def cobs_encode_def cobs_encode_from_Nil)

text \<open>
  C2.  Whenever the loop of \<open>decode_cobsr\<close> stands in a state whose length code is not
  zero, whose chunk holds no zero byte and whose chunk end lies past the end of the
  buffer (so that line 108 finds \<open>idx > len(in_bytes_mv)\<close>), the call does not fail: it
  returns the output so far, the chunk, and then the length byte itself.  In particular
  the buffer \<open>0x05 'a' 'b'\<close> decodes to \<open>"ab"\<close> followed by the byte \<open>0x05\<close>.
\<close>

theorem decode_cobsr_overrun:
  assumes "cobsr_head in_bytes idx out_bytes"
    and "in_bytes ! idx \<noteq> 0"
    and "0 \<notin> set (chunk in_bytes idx)"
    and "chunk_end in_bytes idx > length in_bytes"
  shows "decode_cobsr in_bytes = Inr (out_bytes @ chunk in_bytes idx @ [in_bytes ! idx]) \<and>
         decode_cobsr [5, 97, 98] = Inr [97, 98, 5]"
proof
  from assms(1) have less: "idx < length in_bytes"
    and loop: "cobsr_loop in_bytes idx out_bytes = decode_cobsr in_bytes"
    by (simp_all add: cobsr_head_loop)
  from less assms(2-4)
  have "cobsr_body in_bytes idx out_bytes =
      Break (out_bytes @ chunk in_bytes idx @ [in_bytes ! idx])"
    by (simp add: cobsr_body_cases)
  with loop show "decode_cobsr in_bytes = Inr (out_bytes @ chunk in_bytes idx @ [in_bytes ! idx])"
    by (simp add: cobsr_loop.simps [of in_bytes idx out_bytes])
  show "decode_cobsr [5, 97, 98] = Inr [97, 98, 5]"
    by (simp add: decode_cobsr_def cobsr_loop.simps cobsr_body_def slice_def)
qed

theorem decode_cobsr_overrun_witness:
  "cobsr_head [2, 7, 5, 97, 98] 2 [7, 0] \<and>
   [2, 7, 5, 97, 98 :: byte] ! 2 \<noteq> 0 \<and>
   0 \<notin> set (chunk [2, 7, 5, 97, 98] 2) \<and>
   chunk_end [2, 7, 5, 97, 98] 2 > length [2, 7, 5, 97, 98 :: byte] \<and>
   decode_cobsr [2, 7, 5, 97, 98] = Inr [7, 0, 97, 98, 5]"
proof -
  have first: "cobsr_head [2, 7, 5, 97, 98] 0 []"
    by (rule cobsr_head_first) simp
  have "cobsr_body [2, 7, 5, 97, 98] 0 [] = Continue 2 [7, 0]"
    by (simp add: cobsr_body_def slice_def)
  with first have head: "cobsr_head [2, 7, 5, 97, 98] 2 [7, 0]"
    by (rule cobsr_head_next)
  have code: "[2, 7, 5, 97, 98 :: byte] ! 2 \<noteq> 0"
    by simp
  have nozero: "0 \<notin> set (chunk [2, 7, 5, 97, 98] 2)"
    by (simp add: chunk_def chunk_end_def slice_def)
  have over: "chunk_end [2, 7, 5, 97, 98] 2 > length [2, 7, 5, 97, 98 :: byte]"
    by (simp add: chunk_end_def)
  from decode_cobsr_overrun [OF head code nozero over]
  have "decode_cobsr [2, 7, 5, 97, 98] = Inr [7, 0, 97, 98, 5]"
    by (simp add: chunk_def chunk_end_def slice_def)
  with head code nozero over show ?thesis by blast
qed

text \<open>
  C3.  \<open>decode_cobs\<close> fails with "not enough input bytes for length code" exactly when
  its loop stands in some state from which the cursor, after the chunk has been
  consumed (the length code is not zero and the chunk holds no zero byte, lines 63
  and 68), lies past the end of the buffer.  \<open>decode_cobsr\<close> never fails with it.
\<close>

theorem decode_cobs_truncated_iff:
  "(decode_cobs in_bytes = Inl TruncatedLengthCode \<longleftrightarrow>
      (\<exists>idx out_bytes. cobs_head in_bytes idx out_bytes \<and> in_bytes ! idx \<noteq> 0 \<and>
         0 \<notin> set (chunk in_bytes idx) \<and> chunk_end in_bytes idx > length in_bytes)) \<and>
   decode_cobsr in_bytes \<noteq> Inl TruncatedLengthCode"
proof (intro conjI iffI)
  assume trunc: "decode_cobs in_bytes = Inl TruncatedLengthCode"
  then have "length in_bytes > 0"
    by (auto simp: decode_cobs_def split: if_splits)
  then have head: "cobs_head in_bytes 0 []"
    by (rule cobs_head_first)
  with trunc have "cobs_loop in_bytes 0 [] = Inl TruncatedLengthCode"
    by (simp add: cobs_head_loop)
  with head show "\<exists>idx out_bytes. cobs_head in_bytes idx out_bytes \<and> in_bytes ! idx \<noteq> 0 \<and>
      0 \<notin> set (chunk in_bytes idx) \<and> chunk_end in_bytes idx > length in_bytes"
    by (rule cobs_loop_truncated)
next
  assume "\<exists>idx out_bytes. cobs_head in_bytes idx out_bytes \<and> in_bytes ! idx \<noteq> 0 \<and>
      0 \<notin> set (chunk in_bytes idx) \<and> chunk_end in_bytes idx > length in_bytes"
  then obtain idx out_bytes where head: "cobs_head in_bytes idx out_bytes"
    and rest: "in_bytes ! idx \<noteq> 0" "0 \<notin> set (chunk in_bytes idx)"
      "chunk_end in_bytes idx > length in_bytes"
    by blast
  from head have less: "idx < length in_bytes"
    and loop: "cobs_loop in_bytes idx out_bytes = decode_cobs in_bytes"
    by (simp_all add: cobs_head_loop)
  from less rest have "cobs_body in_bytes idx out_bytes = Raise TruncatedLengthCode"
    by (simp add: cobs_body_cases)
  with loop show "decode_cobs in_bytes = Inl TruncatedLengthCode"
    by (simp add: cobs_loop.simps [of in_bytes idx out_bytes])
next
  show "decode_cobsr in_bytes \<noteq> Inl TruncatedLengthCode"
    using decode_cobsr_Inl [of in_bytes TruncatedLengthCode] exn_distinct(1) by auto
qed

theorem decode_cobs_truncated_iff_witness:
  "cobs_head [5, 97, 98] 0 [] \<and> [5, 97, 98 :: byte] ! 0 \<noteq> 0 \<and>
   0 \<notin> set (chunk [5, 97, 98] 0) \<and> chunk_end [5, 97, 98] 0 > length [5, 97, 98 :: byte] \<and>
   decode_cobs [5, 97, 98] = Inl TruncatedLengthCode \<and>
   decode_cobsr [5, 97, 98] \<noteq> Inl TruncatedLengthCode"
proof -
  have head: "cobs_head [5, 97, 98] 0 []"
    by (rule cobs_head_first) simp
  have rest: "[5, 97, 98 :: byte] ! 0 \<noteq> 0" "0 \<notin> set (chunk [5, 97, 98] 0)"
    "chunk_end [5, 97, 98] 0 > length [5, 97, 98 :: byte]"
    by (simp_all add: chunk_def chunk_end_def slice_def)
  with head decode_cobs_truncated_iff [of "[5, 97, 98]"] show ?thesis
    by blast
qed

text \<open>
  C4.  In both decoders, whenever the loop stands in a state whose length code is zero
  or whose chunk \<open>in_bytes_mv[idx:end]\<close> holds a zero byte, the call fails with "zero
  byte found in input".  In particular \<open>decode_cobs\<close> fails so on the single byte 0x00.
\<close>

theorem zero_byte_fails:
  "(cobs_head in_bytes idx out_bytes \<and>
      (in_bytes ! idx = 0 \<or> 0 \<in> set (chunk in_bytes idx)) \<longrightarrow>
      decode_cobs in_bytes = Inl ZeroByteInInput) \<and>
   (cobsr_head in_bytes idx out_bytes \<and>
      (in_bytes ! idx = 0 \<or> 0 \<in> set (chunk in_bytes idx)) \<longrightarrow>
      decode_cobsr in_bytes = Inl ZeroByteInInput) \<and>
   decode_cobs [0] = Inl ZeroByteInInput"
proof (intro conjI impI)
  assume a: "cobs_head in_bytes idx out_bytes \<and>
      (in_bytes ! idx = 0 \<or> 0 \<in> set (chunk in_bytes idx))"
  then have "cobs_head in_bytes idx out_bytes"
    by simp
  then have less: "idx < length in_bytes"
    and loop: "cobs_loop in_bytes idx out_bytes = decode_cobs in_bytes"
    by (simp_all add: cobs_head_loop)
  from less a have "cobs_body in_bytes idx out_bytes = Raise ZeroByteInInput"
    by (simp add: cobs_body_cases)
  with loop show "decode_cobs in_bytes = Inl ZeroByteInInput"
    by (simp add: cobs_loop.simps [of in_bytes idx out_bytes])
next
  assume a: "cobsr_head in_bytes idx out_bytes \<and>
      (in_bytes ! idx = 0 \<or> 0 \<in> set (chunk in_bytes idx))"
  then have "cobsr_head in_bytes idx out_bytes"
    by simp
  then have less: "idx < length in_bytes"
    and loop: "cobsr_loop in_bytes idx out_bytes = decode_cobsr in_bytes"
    by (simp_all add: cobsr_head_loop)
  from less a have "cobsr_body in_bytes idx out_bytes = Raise ZeroByteInInput"
    by (simp add: cobsr_body_cases)
  with loop show "decode_cobsr in_bytes = Inl ZeroByteInInput"
    by (simp add: cobsr_loop.simps [of in_bytes idx out_bytes])
next
  show "decode_cobs [0] = Inl ZeroByteInInput"
    by (simp add: decode_cobs_def cobs_loop.simps cobs_body_def)
qed

theorem zero_byte_fails_witness:
  "cobs_head [3, 7, 0] 0 [] \<and> cobsr_head [3, 7, 0] 0 [] \<and> 0 \<in> set (chunk [3, 7, 0] 0) \<and>
   decode_cobs [3, 7, 0] = Inl ZeroByteInInput \<and>
   decode_cobsr [3, 7, 0] = Inl ZeroByteInInput"
proof -
  have head: "cobs_head [3, 7, 0] 0 []"
    by (rule cobs_head_first) simp
  have headr: "cobsr_head [3, 7, 0] 0 []"
    by (rule cobsr_head_first) simp
  have zero: "0 \<in> set (chunk [3, 7, 0] 0)"
    by (simp add: chunk_def chunk_end_def slice_def)
  with head headr zero_byte_fails [of "[3, 7, 0]" 0 "[]"] show ?thesis
    by blast
qed

text \<open>
  C5.  In both decoders, once a chunk has been consumed (length code not zero, no zero
  byte in the chunk): if the new cursor is before the end of the buffer, the loop goes
  on from there, with one zero byte appended after the chunk if the length code is
  below 0xFF and nothing appended if it is 0xFF; if the new cursor is exactly the end
  of the buffer, the call returns the output with the chunk and no trailing zero.
\<close>

theorem separator_after_chunk:
  "(cobs_head in_bytes idx out_bytes \<and> in_bytes ! idx \<noteq> 0 \<and> 0 \<notin> set (chunk in_bytes idx) \<longrightarrow>
      (chunk_end in_bytes idx < length in_bytes \<longrightarrow>
         cobs_body in_bytes idx out_bytes =
           Continue (chunk_end in_bytes idx)
             (out_bytes @ chunk in_bytes idx @
                (if unat (in_bytes ! idx) < 255 then [0] else []))) \<and>
      (chunk_end in_bytes idx = length in_bytes \<longrightarrow>
         decode_cobs in_bytes = Inr (out_bytes @ chunk in_bytes idx))) \<and>
   (cobsr_head in_bytes idx out_bytes \<and> in_bytes ! idx \<noteq> 0 \<and> 0 \<notin> set (chunk in_bytes idx) \<longrightarrow>
      (chunk_end in_bytes idx < length in_bytes \<longrightarrow>
         cobsr_body in_bytes idx out_bytes =
           Continue (chunk_end in_bytes idx)
             (out_bytes @ chunk in_bytes idx @
                (if unat (in_bytes ! idx) < 255 then [0] else []))) \<and>
      (chunk_end in_bytes idx = length in_bytes \<longrightarrow>
         decode_cobsr in_bytes = Inr (out_bytes @ chunk in_bytes idx)))"
proof (intro conjI impI)
  assume a: "cobs_head in_bytes idx out_bytes \<and> in_bytes ! idx \<noteq> 0 \<and>
      0 \<notin> set (chunk in_bytes idx)"
  then have "cobs_head in_bytes idx out_bytes"
    by simp
  then have less: "idx < length in_bytes"
    and loop: "cobs_loop in_bytes idx out_bytes = decode_cobs in_bytes"
    by (simp_all add: cobs_head_loop)
  {
    assume "chunk_end in_bytes idx < length in_bytes"
    with less a show "cobs_body in_bytes idx out_bytes =
        Continue (chunk_end in_bytes idx)
          (out_bytes @ chunk in_bytes idx @ (if unat (in_bytes ! idx) < 255 then [0] else []))"
      by (simp add: cobs_body_cases)
  next
    assume "chunk_end in_bytes idx = length in_bytes"
    with less a have "cobs_body in_bytes idx out_bytes = Break (out_bytes @ chunk in_bytes idx)"
      by (simp add: cobs_body_cases)
    with loop show "decode_cobs in_bytes = Inr (out_bytes @ chunk in_bytes idx)"
      by (simp add: cobs_loop.simps [of in_bytes idx out_bytes])
  }
next
  assume a: "cobsr_head in_bytes idx out_bytes \<and> in_bytes ! idx \<noteq> 0 \<and>
      0 \<notin> set (chunk in_bytes idx)"
  then have "cobsr_head in_bytes idx out_bytes"
    by simp
  then have less: "idx < length in_bytes"
    and loop: "cobsr_loop in_bytes idx out_bytes = decode_cobsr in_bytes"
    by (simp_all add: cobsr_head_loop)
  {
    assume "chunk_end in_bytes idx < length in_bytes"
    with less a show "cobsr_body in_bytes idx out_bytes =
        Continue (chunk_end in_bytes idx)
          (out_bytes @ chunk in_bytes idx @ (if unat (in_bytes ! idx) < 255 then [0] else []))"
      by (simp add: cobsr_body_cases)
  next
    assume "chunk_end in_bytes idx = length in_bytes"
    with less a have "cobsr_body in_bytes idx out_bytes = Break (out_bytes @ chunk in_bytes idx)"
      by (simp add: cobsr_body_cases)
    with loop show "decode_cobsr in_bytes = Inr (out_bytes @ chunk in_bytes idx)"
      by (simp add: cobsr_loop.simps [of in_bytes idx out_bytes])
  }
qed

theorem separator_after_chunk_witness:
  "cobs_head [2, 7, 3, 8, 9] 0 [] \<and> cobsr_head [2, 7, 3, 8, 9] 0 [] \<and>
   chunk_end [2, 7, 3, 8, 9] 0 < length [2, 7, 3, 8, 9 :: byte] \<and>
   cobs_body [2, 7, 3, 8, 9] 0 [] = Continue 2 [7, 0] \<and>
   cobsr_body [2, 7, 3, 8, 9] 0 [] = Continue 2 [7, 0] \<and>
   cobs_head [2, 7, 3, 8, 9] 2 [7, 0] \<and> cobsr_head [2, 7, 3, 8, 9] 2 [7, 0] \<and>
   chunk_end [2, 7, 3, 8, 9] 2 = length [2, 7, 3, 8, 9 :: byte] \<and>
   decode_cobs [2, 7, 3, 8, 9] = Inr [7, 0, 8, 9] \<and>
   decode_cobsr [2, 7, 3, 8, 9] = Inr [7, 0, 8, 9]"
proof -
  let ?b = "[2, 7, 3, 8, 9] :: bytes"
  have head0: "cobs_head ?b 0 []" by (rule cobs_head_first) simp
  have headr0: "cobsr_head ?b 0 []" by (rule cobsr_head_first) simp
  have at0: "?b ! 0 \<noteq> 0" "0 \<notin> set (chunk ?b 0)" "chunk_end ?b 0 < length ?b"
    by (simp_all add: chunk_def chunk_end_def slice_def)
  from separator_after_chunk [of ?b 0 "[]"] head0 headr0 at0
  have body: "cobs_body ?b 0 [] = Continue 2 [7, 0]"
    and bodyr: "cobsr_body ?b 0 [] = Continue 2 [7, 0]"
    by (simp_all add: chunk_def chunk_end_def slice_def)
  from head0 body have head2: "cobs_head ?b 2 [7, 0]" by (rule cobs_head_next)
  from headr0 bodyr have headr2: "cobsr_head ?b 2 [7, 0]" by (rule cobsr_head_next)
  have at2: "?b ! 2 \<noteq> 0" "0 \<notin> set (chunk ?b 2)" "chunk_end ?b 2 = length ?b"
    by (simp_all add: chunk_def chunk_end_def slice_def)
  from separator_after_chunk [of ?b 2 "[7, 0]"] head2 headr2 at2
  have "decode_cobs ?b = Inr [7, 0, 8, 9]" and "decode_cobsr ?b = Inr [7, 0, 8, 9]"
    by (simp_all add: chunk_def chunk_end_def slice_def)
  with head0 headr0 at0 body bodyr head2 headr2 at2 show ?thesis by blast
qed

text \<open>
  C9.  Both decoders return the empty message for the empty buffer, and \<open>decode_cobs\<close>
  returns the empty message for the single byte 0x01.
\<close>

theorem decode_empty:
  "decode_cobs [] = Inr [] \<and> decode_cobsr [] = Inr [] \<and> decode_cobs [1] = Inr []"
  by (simp add: decode_cobs_def decode_cobsr_def cobs_loop.simps cobs_body_def slice_def)

text \<open>
  C10.  On every buffer for which \<open>decode_cobs\<close> returns a message, \<open>decode_cobsr\<close>
  returns the same message.
\<close>

theorem decode_cobsr_agrees:
  "decode_cobs in_bytes = Inr m \<Longrightarrow> decode_cobsr in_bytes = Inr m"
  using cobs_loop_Inr_cobsr [of in_bytes 0 "[]" m]
  by (simp add: decode_cobs_def decode_cobsr_def split: if_splits)

theorem decode_cobsr_agrees_witness:
  "decode_cobs [3, 97, 98] = Inr [97, 98] \<and> decode_cobsr [3, 97, 98] = Inr [97, 98]"
proof -
  have "decode_cobs [3, 97, 98] = Inr [97, 98]"
    by (simp add: decode_cobs_def cobs_loop.simps cobs_body_def slice_def)
  with decode_cobsr_agrees [of "[3, 97, 98]" "[97, 98]"] show ?thesis by simp
qed

section \<open>Properties of the frame accumulator\<close>

lemma decode_bytes_no_IndexError: "decode_bytes v x \<noteq> Inl IndexError"
proof (cases v)
  case CobsDecoder
  then show ?thesis by (simp add: decode_cobs_no_IndexError)
next
  case CobsrDecoder
  then show ?thesis
    using decode_cobsr_Inl [of x IndexError] exn_distinct(2) by auto
qed

lemma strip_prefix_Nil: "strip_prefix k [] = []"
  by (simp add: strip_prefix_def)

text \<open>What \<open>decode\<close> does with a delimiter, and with any other frame.\<close>

lemma decode_delimiter:
  assumes "data frame = [0]"
  shows "decode v k self frame =
     Inr (self\<lparr>received := [], frame_start_time := Some (start_time frame)\<rparr>,
          if strip_prefix k (received self) = [] then None
          else Some (case decode_bytes v (concat (strip_prefix k (received self))) of
                 Inr decoded \<Rightarrow>
                   Message (if frame_start_time self = None then Some (start_time frame)
                            else frame_start_time self) (frame_end_time self) decoded
               | Inl e \<Rightarrow>
                   Error (if frame_start_time self = None then Some (start_time frame)
                          else frame_start_time self) (frame_end_time self)
                     (case e of DecodeError de \<Rightarrow> de | IndexError \<Rightarrow> [])))"
  using assms decode_bytes_no_IndexError [of v "concat (strip_prefix k (received self))"]
  by (auto simp: decode_def Let_def split: sum.splits exn.splits)

lemma decode_other:
  assumes "data frame \<noteq> [0]"
  shows "decode v k self frame =
     Inr (self\<lparr>received := received self @ [data frame],
               frame_start_time := (if frame_start_time self = None
                                    then Some (start_time frame) else frame_start_time self),
               frame_end_time := Some (end_time frame)\<rparr>, None)"
  using assms by (simp add: decode_def Let_def)

lemma feed_snoc:
  "feed v k self (frames @ [frame]) =
     (case feed v k self frames of
        Inl e \<Rightarrow> Inl e
      | Inr (self', retvals) \<Rightarrow>
          (case decode v k self' frame of
             Inl e \<Rightarrow> Inl e
           | Inr (self'', retval) \<Rightarrow>
               Inr (self'', retvals @ (case retval of None \<Rightarrow> [] | Some r \<Rightarrow> [r]))))"
  by (induction frames arbitrary: self) (auto split: sum.splits option.splits)

text \<open>
  The state after a stream has been fed to a fresh decoder: the start time is that of
  the last delimiter, or of the first frame when there was no delimiter yet; while
  bytes are buffered, the end time is that of the last frame, which is no delimiter.
\<close>

lemma feed_times:
  "feed v k init frames = Inr (self, retvals) \<Longrightarrow>
     frame_start_time self =
       (if frames = [] then None
        else Some (start_time (if filter (\<lambda>f. data f = [0]) frames = [] then hd frames
                               else last (filter (\<lambda>f. data f = [0]) frames)))) \<and>
     (received self \<noteq> [] \<longrightarrow>
        frames \<noteq> [] \<and> data (last frames) \<noteq> [0] \<and>
        frame_end_time self = Some (end_time (last frames)))"
proof (induction frames arbitrary: self retvals rule: rev_induct)
  case Nil
  then show ?case by (auto simp: init_def)
next
  case (snoc frame frames)
  from snoc.prems obtain self0 retvals0 where
    before: "feed v k init frames = Inr (self0, retvals0)"
    by (auto simp: feed_snoc split: sum.splits)
  note IH = snoc.IH [OF before]
  show ?case
  proof (cases "data frame = [0]")
    case True
    with snoc.prems before have "self = self0\<lparr>received := [],
        frame_start_time := Some (start_time frame)\<rparr>"
      by (auto simp: feed_snoc decode_delimiter)
    with True show ?thesis
      by simp
  next
    case False
    with snoc.prems before have self: "self = self0\<lparr>received := received self0 @ [data frame],
        frame_start_time := (if frame_start_time self0 = None
                             then Some (start_time frame) else frame_start_time self0),
        frame_end_time := Some (end_time frame)\<rparr>"
      by (auto simp: feed_snoc decode_other)
    show ?thesis
    proof (cases "frames = []")
      case True
      with self False IH show ?thesis by simp
    next
      case nonempty: False
      with self False IH show ?thesis by simp
    qed
  qed
qed

lemma feed_total: "\<exists>self' retvals. feed v k self frames = Inr (self', retvals)"
proof (induction frames arbitrary: self)
  case Nil
  show ?case by simp
next
  case (Cons frame frames)
  obtain self1 retval where step: "decode v k self frame = Inr (self1, retval)"
    by (cases "data frame = [0]") (auto simp: decode_delimiter decode_other)
  from Cons [of self1] obtain self2 retvals where "feed v k self1 frames = Inr (self2, retvals)"
    by blast
  with step show ?case by simp
qed

text \<open>
  Every frame in the output of \<open>feed\<close> was returned by \<open>decode\<close> for some frame of the
  stream, in the state the frames before it left; and \<open>decode\<close> returns a frame for
  delimiters only.
\<close>

lemma decode_Some_delimiter:
  "decode v k self frame = Inr (self', Some r) \<Longrightarrow> data frame = [0]"
  by (cases "data frame = [0]") (simp_all add: decode_other)

lemma emitted_at_delimiter:
  assumes "feed v k init frames = Inr (self, retvals)"
    and "decode v k self frame = Inr (self', Some r)"
  shows "data frame = [0] \<and> frames \<noteq> [] \<and> data (last frames) \<noteq> [0] \<and>
         frame_end r = Some (end_time (last frames)) \<and>
         frame_start r =
           Some (start_time (if filter (\<lambda>f. data f = [0]) frames = [] then hd frames
                             else last (filter (\<lambda>f. data f = [0]) frames)))"
proof -
  from assms(2) have delim: "data frame = [0]"
    by (rule decode_Some_delimiter)
  with assms(2) have "strip_prefix k (received self) \<noteq> []"
    by (auto simp: decode_delimiter split: if_splits)
  then have buffered: "received self \<noteq> []"
    using strip_prefix_Nil [of k] by auto
  with feed_times [OF assms(1)]
  have nonempty: "frames \<noteq> []" and last: "data (last frames) \<noteq> [0]"
    and end_time: "frame_end_time self = Some (end_time (last frames))"
    and start: "frame_start_time self =
      Some (start_time (if filter (\<lambda>f. data f = [0]) frames = [] then hd frames
                        else last (filter (\<lambda>f. data f = [0]) frames)))"
    by simp_all
  from delim assms(2) start end_time
  have "frame_end r = Some (end_time (last frames)) \<and>
        frame_start r =
           Some (start_time (if filter (\<lambda>f. data f = [0]) frames = [] then hd frames
                             else last (filter (\<lambda>f. data f = [0]) frames)))"
    by (auto simp: decode_delimiter split: if_splits sum.splits)
  with delim nonempty last show ?thesis by simp
qed

lemma feed_emitted:
  "feed v k self0 stream = Inr (self, retvals) \<Longrightarrow> r \<in> set retvals \<Longrightarrow>
     \<exists>frames frame rest self1 retvals1 self2.
        stream = frames @ frame # rest \<and>
        feed v k self0 frames = Inr (self1, retvals1) \<and>
        decode v k self1 frame = Inr (self2, Some r)"
proof (induction stream arbitrary: self retvals rule: rev_induct)
  case Nil
  then show ?case by simp
next
  case (snoc x xs)
  from snoc.prems(1) obtain s0 rs0 s1 ret where
    before: "feed v k self0 xs = Inr (s0, rs0)"
    and step: "decode v k s0 x = Inr (s1, ret)"
    and all: "retvals = rs0 @ (case ret of None \<Rightarrow> [] | Some r' \<Rightarrow> [r'])"
    by (auto simp: feed_snoc split: sum.splits)
  show ?case
  proof (cases "r \<in> set rs0")
    case True
    from snoc.IH [OF before True] obtain frames frame rest self1 retvals1 self2 where
      "xs = frames @ frame # rest" "feed v k self0 frames = Inr (self1, retvals1)"
      "decode v k self1 frame = Inr (self2, Some r)"
      by blast
    then have "xs @ [x] = frames @ frame # (rest @ [x]) \<and>
        feed v k self0 frames = Inr (self1, retvals1) \<and>
        decode v k self1 frame = Inr (self2, Some r)"
      by simp
    then show ?thesis by blast
  next
    case False
    with snoc.prems(2) all have "ret = Some r"
      by (auto split: option.splits)
    with before step have "xs @ [x] = xs @ x # [] \<and>
        feed v k self0 xs = Inr (s0, rs0) \<and> decode v k s0 x = Inr (s1, Some r)"
      by simp
    then show ?thesis by blast
  qed
qed

section \<open>The claims about the frame accumulator\<close>

text \<open>
  C6.  When \<open>decode\<close> processes a delimiter frame with prefix count \<open>k\<close>: if at least
  \<open>k\<close> entries are buffered, the first \<open>k\<close> are removed before the rest is decoded; if
  fewer are buffered, nothing is removed and the whole buffer is decoded; and if the
  buffer is empty after that, \<open>decode\<close> returns no frame.  Otherwise it returns the
  message, or the error, that \<open>decode_bytes\<close> gives for the joined buffer.
\<close>

theorem delimiter_strips_prefix:
  assumes "data frame = [0]"
  shows "let rcvd = (if length (received self) \<ge> k then drop k (received self)
                     else received self);
             start = (if frame_start_time self = None then Some (start_time frame)
                      else frame_start_time self);
             self' = self\<lparr>received := [], frame_start_time := Some (start_time frame)\<rparr>
         in (rcvd = [] \<longrightarrow> decode v k self frame = Inr (self', None)) \<and>
            (rcvd \<noteq> [] \<longrightarrow>
               (\<forall>decoded. decode_bytes v (concat rcvd) = Inr decoded \<longrightarrow>
                  decode v k self frame =
                    Inr (self', Some (Message start (frame_end_time self) decoded))) \<and>
               (\<forall>de. decode_bytes v (concat rcvd) = Inl (DecodeError de) \<longrightarrow>
                  decode v k self frame =
                    Inr (self', Some (Error start (frame_end_time self) de))))"
  using decode_delimiter [OF assms, of v k self]
  by (auto simp: Let_def strip_prefix_def)

theorem delimiter_strips_prefix_witness:
  "decode CobsDecoder 2
     \<lparr>received = [[9], [8], [1]], frame_start_time = Some 0, frame_end_time = Some (5::nat)\<rparr>
     \<lparr>data = [0], start_time = 6, end_time = 7\<rparr> =
   Inr (\<lparr>received = [], frame_start_time = Some 6, frame_end_time = Some 5\<rparr>,
        Some (Message (Some 0) (Some 5) [])) \<and>
   decode CobsDecoder 2
     \<lparr>received = [[5]], frame_start_time = Some 0, frame_end_time = Some (1::nat)\<rparr>
     \<lparr>data = [0], start_time = 2, end_time = 3\<rparr> =
   Inr (\<lparr>received = [], frame_start_time = Some 2, frame_end_time = Some 1\<rparr>,
        Some (Error (Some 0) (Some 1) ''not enough input bytes for length code'')) \<and>
   decode CobsDecoder 2
     \<lparr>received = [[9], [8]], frame_start_time = Some 0, frame_end_time = Some (3::nat)\<rparr>
     \<lparr>data = [0], start_time = 4, end_time = 5\<rparr> =
   Inr (\<lparr>received = [], frame_start_time = Some 4, frame_end_time = Some 3\<rparr>, None)"
proof -
  have one: "decode_bytes CobsDecoder (concat [[1]]) = Inr []"
    by (simp add: decode_cobs_def cobs_loop.simps cobs_body_def slice_def)
  have five: "decode_bytes CobsDecoder (concat [[5]]) =
      Inl (DecodeError ''not enough input bytes for length code'')"
    by (simp add: decode_cobs_def cobs_loop.simps cobs_body_def slice_def
        TruncatedLengthCode_def)
  show ?thesis
    using delimiter_strips_prefix [where v = CobsDecoder and k = 2
        and frame = "\<lparr>data = [0], start_time = 6, end_time = 7\<rparr>"
        and self = "\<lparr>received = [[9], [8], [1]], frame_start_time = Some 0,
                      frame_end_time = Some (5::nat)\<rparr>"]
      delimiter_strips_prefix [where v = CobsDecoder and k = 2
        and frame = "\<lparr>data = [0], start_time = 2, end_time = 3\<rparr>"
        and self = "\<lparr>received = [[5]], frame_start_time = Some 0,
                      frame_end_time = Some (1::nat)\<rparr>"]
      delimiter_strips_prefix [where v = CobsDecoder and k = 2
        and frame = "\<lparr>data = [0], start_time = 4, end_time = 5\<rparr>"
        and self = "\<lparr>received = [[9], [8]], frame_start_time = Some 0,
                      frame_end_time = Some (3::nat)\<rparr>"]
      one five
    by (simp add: Let_def)
qed

text \<open>
  C7, as the code has it.  After \<open>decode\<close> has processed a delimiter frame, the buffer
  is empty and the start time is that of the delimiter, while the end time is left as
  it was: line 172 and 173 assign \<open>received\<close> and \<open>frame_start_time\<close> only.  After a
  frame has been returned, the end time the object keeps is the one of that frame.
\<close>

theorem delimiter_resets:
  assumes "data frame = [0]"
  shows "\<exists>self' retval. decode v k self frame = Inr (self', retval) \<and>
           received self' = [] \<and>
           frame_start_time self' = Some (start_time frame) \<and>
           frame_end_time self' = frame_end_time self \<and>
           (\<forall>r. retval = Some r \<longrightarrow> frame_end r = frame_end_time self')"
  using decode_delimiter [OF assms, of v k self]
  by (auto split: sum.splits)

theorem delimiter_resets_witness:
  "decode CobsDecoder 0
     \<lparr>received = [[1]], frame_start_time = Some 0, frame_end_time = Some (1::nat)\<rparr>
     \<lparr>data = [0], start_time = 2, end_time = 3\<rparr> =
     Inr (\<lparr>received = [], frame_start_time = Some 2, frame_end_time = Some 1\<rparr>,
          Some (Message (Some 0) (Some 1) [])) \<and>
   received \<lparr>received = [], frame_start_time = Some 2, frame_end_time = Some (1::nat)\<rparr> = [] \<and>
   frame_end (Message (Some 0) (Some (1::nat)) []) =
     frame_end_time \<lparr>received = [[1]], frame_start_time = Some 0, frame_end_time = Some 1\<rparr>"
proof -
  have step: "decode CobsDecoder 0
     \<lparr>received = [[1]], frame_start_time = Some 0, frame_end_time = Some (1::nat)\<rparr>
     \<lparr>data = [0], start_time = 2, end_time = 3\<rparr> =
     Inr (\<lparr>received = [], frame_start_time = Some 2, frame_end_time = Some 1\<rparr>,
          Some (Message (Some 0) (Some 1) []))"
    by (simp add: decode_def Let_def strip_prefix_def decode_cobs_def
        cobs_loop.simps cobs_body_def slice_def)
  from delimiter_resets [where v = CobsDecoder and k = 0
      and frame = "\<lparr>data = [0], start_time = 2, end_time = 3\<rparr>"
      and self = "\<lparr>received = [[1]], frame_start_time = Some 0,
                    frame_end_time = Some (1::nat)\<rparr>"] step
  show ?thesis by simp
qed

text \<open>
  The claim C7 as written fails: a fresh decoder that is fed the byte 0x01 (from time 0
  to time 1) and then a delimiter (from time 2 to time 3) returns a message, and its
  end time is still set afterwards.
\<close>

theorem delimiter_keeps_end_time:
  "feed CobsDecoder 0 init [\<lparr>data = [1], start_time = 0, end_time = (1::nat)\<rparr>] =
     Inr (\<lparr>received = [[1]], frame_start_time = Some 0, frame_end_time = Some 1\<rparr>, []) \<and>
   decode CobsDecoder 0
     \<lparr>received = [[1]], frame_start_time = Some 0, frame_end_time = Some (1::nat)\<rparr>
     \<lparr>data = [0], start_time = 2, end_time = 3\<rparr> =
     Inr (\<lparr>received = [], frame_start_time = Some 2, frame_end_time = Some 1\<rparr>,
          Some (Message (Some 0) (Some 1) [])) \<and>
   frame_end_time \<lparr>received = [], frame_start_time = Some 2, frame_end_time = Some (1::nat)\<rparr>
     \<noteq> None"
  by (simp add: init_def decode_def Let_def strip_prefix_def decode_cobs_def
      cobs_loop.simps cobs_body_def slice_def)

text \<open>
  C8, as the code has it.  Let a fresh decoder be fed a stream.  Every frame it returns
  was returned at a delimiter of the stream; the frames before that delimiter end with
  one that is no delimiter, and the end time returned is the end time of that last
  frame.  The start time returned is the start time of the last delimiter before, or
  of the first frame of the stream when no delimiter came before.
\<close>

theorem emitted_frame_times:
  assumes "feed v k init stream = Inr (self, retvals)"
    and "r \<in> set retvals"
  shows "\<exists>frames frame rest.
           stream = frames @ frame # rest \<and> data frame = [0] \<and>
           frames \<noteq> [] \<and> data (last frames) \<noteq> [0] \<and>
           frame_end r = Some (end_time (last frames)) \<and>
           frame_start r =
             Some (start_time (if filter (\<lambda>f. data f = [0]) frames = [] then hd frames
                               else last (filter (\<lambda>f. data f = [0]) frames)))"
proof -
  from feed_emitted [OF assms] obtain frames frame rest self1 retvals1 self2 where
    split: "stream = frames @ frame # rest"
    and fed: "feed v k init frames = Inr (self1, retvals1)"
    and step: "decode v k self1 frame = Inr (self2, Some r)"
    by blast
  from emitted_at_delimiter [OF fed step] split show ?thesis
    by blast
qed

theorem emitted_frame_times_witness:
  "feed CobsDecoder 0 init
     [\<lparr>data = [1], start_time = 0, end_time = (1::nat)\<rparr>,
      \<lparr>data = [0], start_time = 2, end_time = 3\<rparr>,
      \<lparr>data = [5], start_time = 4, end_time = 5\<rparr>,
      \<lparr>data = [0], start_time = 6, end_time = 7\<rparr>] =
     Inr (\<lparr>received = [], frame_start_time = Some 6, frame_end_time = Some 5\<rparr>,
          [Message (Some 0) (Some 1) [],
           Error (Some 2) (Some 5) ''not enough input bytes for length code'']) \<and>
   (\<exists>frames frame rest.
      [\<lparr>data = [1], start_time = 0, end_time = (1::nat)\<rparr>,
       \<lparr>data = [0], start_time = 2, end_time = 3\<rparr>,
       \<lparr>data = [5], start_time = 4, end_time = 5\<rparr>,
       \<lparr>data = [0], start_time = 6, end_time = 7\<rparr>] = frames @ frame # rest \<and>
      data frame = [0] \<and> frames \<noteq> [] \<and> data (last frames) \<noteq> [0] \<and>
      frame_end (Error (Some 2) (Some 5) ''not enough input bytes for length code'') =
        Some (end_time (last frames)) \<and>
      frame_start (Error (Some 2) (Some 5) ''not enough input bytes for length code'') =
        Some (start_time (if filter (\<lambda>f. data f = [0]) frames = [] then hd frames
                          else last (filter (\<lambda>f. data f = [0]) frames))))"
proof -
  let ?stream = "[\<lparr>data = [1], start_time = 0, end_time = (1::nat)\<rparr>,
      \<lparr>data = [0], start_time = 2, end_time = 3\<rparr>,
      \<lparr>data = [5], start_time = 4, end_time = 5\<rparr>,
      \<lparr>data = [0], start_time = 6, end_time = 7\<rparr>]"
  let ?err = "Error (Some 2) (Some (5::nat)) ''not enough input bytes for length code''"
  have fed: "feed CobsDecoder 0 init ?stream =
      Inr (\<lparr>received = [], frame_start_time = Some 6, frame_end_time = Some 5\<rparr>,
           [Message (Some 0) (Some 1) [], ?err])"
    by (simp add: init_def decode_def Let_def strip_prefix_def decode_cobs_def
        cobs_loop.simps cobs_body_def slice_def TruncatedLengthCode_def)
  have mem: "?err \<in> set [Message (Some 0) (Some 1) [], ?err]"
    by simp
  from emitted_frame_times [OF fed mem] fed show ?thesis
    by blast
qed

text \<open>
  The claim C8 as written fails on the stream of the bytes 0x01, 0x00, 0x01, 0x00 sent
  at the times 0 to 1, 2 to 3, 4 to 5 and 6 to 7: the second frame returned starts at
  time 2, the start of the first delimiter, and not at time 4, the start of the first
  byte after that delimiter.
\<close>

theorem second_frame_starts_at_delimiter:
  "feed CobsDecoder 0 init
     [\<lparr>data = [1], start_time = 0, end_time = (1::nat)\<rparr>,
      \<lparr>data = [0], start_time = 2, end_time = 3\<rparr>,
      \<lparr>data = [1], start_time = 4, end_time = 5\<rparr>,
      \<lparr>data = [0], start_time = 6, end_time = 7\<rparr>] =
     Inr (\<lparr>received = [], frame_start_time = Some 6, frame_end_time = Some 5\<rparr>,
          [Message (Some 0) (Some 1) [], Message (Some 2) (Some 5) []]) \<and>
   frame_start (Message (Some 2) (Some (5::nat)) []) \<noteq>
     Some (start_time \<lparr>data = [1], start_time = 4, end_time = (5::nat)\<rparr>)"
  by (simp add: init_def decode_def Let_def strip_prefix_def decode_cobs_def
      cobs_loop.simps cobs_body_def slice_def)

end
